theory Spec2Isabelle
  imports Complex_Main
begin

section \<open>The wrapped media element\<close>

text \<open>
  \<open>NebulaAudio\<close> (src/index.js) wraps an \<open>HTMLAudioElement\<close>. The element is the
  platform's; the model keeps the three fields the wrapper reads or writes in the code
  below (\<open>volume\<close>, \<open>paused\<close>, \<open>src\<close>) and records every call the wrapper makes on it,
  in order, in \<open>calls\<close>.

  JavaScript numbers are modelled as real numbers: arithmetic is exact, rounding is not
  modelled, and a value that is not a finite number (the \<open>NaN\<close> of a division by zero) is
  a separate branch wherever the code can produce one. The code computes in binary64, so
  a volume it writes agrees with the value of the same expression here only up to
  rounding. Handlers are values of an arbitrary type \<open>'h\<close>.
\<close>

datatype 'h call =
    VolumeWrite real
  | SrcWrite string
  | PlayCall
  | LoadCall
  | AddEventListener string "'h option"
  | RemoveEventListener string "'h option"

record 'h audio_element =
  volume :: real
  paused :: bool
  src :: string
  calls :: "'h call list"

text \<open>\<open>new Audio(url)\<close>: a fresh element is paused and has volume 1.\<close>

definition Audio :: "string option \<Rightarrow> 'h audio_element" where
  "Audio url =
     \<lparr>volume = 1, paused = True, src = (case url of None \<Rightarrow> [] | Some u \<Rightarrow> u), calls = []\<rparr>"

definition write_volume :: "real \<Rightarrow> 'h audio_element \<Rightarrow> 'h audio_element" where
  "write_volume v a = a\<lparr>volume := v, calls := calls a @ [VolumeWrite v]\<rparr>"

definition write_src :: "string \<Rightarrow> 'h audio_element \<Rightarrow> 'h audio_element" where
  "write_src url a = a\<lparr>src := url, calls := calls a @ [SrcWrite url]\<rparr>"

definition audio_play :: "'h audio_element \<Rightarrow> 'h audio_element" where
  "audio_play a = a\<lparr>paused := False, calls := calls a @ [PlayCall]\<rparr>"

definition audio_load :: "'h audio_element \<Rightarrow> 'h audio_element" where
  "audio_load a = a\<lparr>calls := calls a @ [LoadCall]\<rparr>"

text \<open>
  The second argument of \<open>addEventListener\<close> and \<open>removeEventListener\<close> is what the
  wrapper reads from a slot of its array: a handler, or \<open>None\<close> for the \<open>null\<close> or
  \<open>undefined\<close> of a slot that holds no handler.
\<close>

definition addEventListener ::
  "string \<Rightarrow> 'h option \<Rightarrow> 'h audio_element \<Rightarrow> 'h audio_element" where
  "addEventListener event h a = a\<lparr>calls := calls a @ [AddEventListener event h]\<rparr>"

definition removeEventListener ::
  "string \<Rightarrow> 'h option \<Rightarrow> 'h audio_element \<Rightarrow> 'h audio_element" where
  "removeEventListener event h a = a\<lparr>calls := calls a @ [RemoveEventListener event h]\<rparr>"

section \<open>The wrapper\<close>

text \<open>
  A slot of one of the arrays in \<open>this._eventHandlers\<close>: a handler, the \<open>null\<close> that
  \<open>off\<close> stores, or an empty slot (a hole, left when a store beyond the end extends the
  array).
\<close>

datatype 'h slot = Empty | Null | Fn 'h

text \<open>
  Such an array: its slots, from index 0 to its length, and what is stored in it under
  numbers that are not array indices (\<open>extra\<close>).
\<close>

record 'h handler_array =
  slots :: "'h slot list"
  extra :: "real \<rightharpoonup> 'h slot"

text \<open>
  \<open>eventHandlers\<close> holds the arrays stored in \<open>this._eventHandlers\<close>, by event name. The
  event name is any string. What that object inherits besides is in \<open>registry_get\<close>
  below.
\<close>

record 'h NebulaAudio =
  audio :: "'h audio_element"
  eventHandlers :: "string \<rightharpoonup> 'h handler_array"

definition constructor :: "string option \<Rightarrow> 'h NebulaAudio" where
  "constructor url =
     \<lparr>audio = (case url of
                 None \<Rightarrow> Audio url
               | Some u \<Rightarrow> if u = [] then Audio url else audio_load (Audio url)),
      eventHandlers = Map.empty\<rparr>"

definition isPlaying :: "'h NebulaAudio \<Rightarrow> bool" where
  "isPlaying p = (\<not> paused (audio p))"

subsection \<open>setVolume\<close>

datatype error = InvalidArgument | TypeError | RangeError

text \<open>
  The state of the closure that \<open>setVolume\<close> hands to \<open>setInterval\<close>: the constants
  \<open>originalVolume\<close>, \<open>delta\<close> and \<open>ticks\<close>, the counter \<open>tick\<close>, and \<open>cleared\<close>, which
  becomes true when the callback calls \<open>clearInterval(timer)\<close> and \<open>resolve()\<close> (the two
  calls always happen together).
\<close>

record fade =
  originalVolume :: real
  delta :: real
  ticks :: int
  tick :: int
  cleared :: bool

text \<open>
  The promise \<open>setVolume\<close> returns: already fulfilled, rejected with an error, or
  pending on the interval timer of a fade. \<open>setVolume\<close> is an \<open>async\<close> function, so every
  outcome, the failure included, is a state of the returned promise. \<open>InvalidArgument\<close>
  is the \<open>Error\<close> for a volume outside 0-100.
\<close>

datatype promise = Resolved | Rejected error | Pending fade

text \<open>The default values of the parameters \<open>fadeMs\<close> and \<open>intervalMs\<close>.\<close>

definition default_fadeMs :: real where
  "default_fadeMs = 1500"

definition default_intervalMs :: real where
  "default_intervalMs = 13"

definition setVolume ::
  "real \<Rightarrow> real \<Rightarrow> real \<Rightarrow> 'h NebulaAudio \<Rightarrow> promise \<times> 'h NebulaAudio" where
  "setVolume newVolume fadeMs intervalMs p =
     (if newVolume < 0 \<or> newVolume > 100 then (Rejected InvalidArgument, p)
      else
        let newVolume' = newVolume / 100;
            originalVolume' = volume (audio p);
            delta' = newVolume' - originalVolume'
        in if delta' = 0 \<or> fadeMs = 0 \<or> intervalMs = 0
           then (Resolved, p\<lparr>audio := write_volume newVolume' (audio p)\<rparr>)
           else (Pending \<lparr>originalVolume = originalVolume', delta = delta',
                          ticks = \<lfloor>fadeMs / intervalMs\<rfloor>, tick = 1, cleared = False\<rparr>, p))"

text \<open>
  The volume the callback writes at \<open>tick\<close>, for \<open>ticks \<noteq> 0\<close>: the expression of
  line 81.
\<close>

definition swing_volume :: "real \<Rightarrow> real \<Rightarrow> int \<Rightarrow> int \<Rightarrow> real" where
  "swing_volume originalVolume' delta' ticks' tick' =
     originalVolume' + ((0.5 - cos ((of_int tick' / of_int ticks') * pi) / 2) * delta')"

text \<open>
  One run of the interval callback. With \<open>ticks = 0\<close> the quotient \<open>tick / ticks\<close> is
  \<open>Infinity\<close> and its cosine is \<open>NaN\<close>, which the element's \<open>volume\<close> setter refuses with
  a \<open>TypeError\<close>: the callback ends there, before \<open>++tick\<close>.
\<close>

definition timer_callback ::
  "fade \<Rightarrow> 'h NebulaAudio \<Rightarrow> error + fade \<times> 'h NebulaAudio" where
  "timer_callback f p =
     (if ticks f = 0 then Inl TypeError
      else
        let p' = p\<lparr>audio := write_volume
                   (swing_volume (originalVolume f) (delta f) (ticks f) (tick f)) (audio p)\<rparr>;
            tick' = tick f + 1
        in if tick' = ticks f + 1 then Inr (f\<lparr>tick := tick', cleared := True\<rparr>, p')
           else Inr (f\<lparr>tick := tick'\<rparr>, p'))"

text \<open>
  The interval timer fires \<open>n\<close> times, or until it is cleared. An exception inside the
  callback leaves the timer running.
\<close>

fun run_timer :: "nat \<Rightarrow> fade \<Rightarrow> 'h NebulaAudio \<Rightarrow> fade \<times> 'h NebulaAudio" where
  "run_timer 0 f p = (f, p)"
| "run_timer (Suc n) f p =
     (if cleared f then (f, p)
      else case timer_callback f p of
             Inl e \<Rightarrow> run_timer n f p
           | Inr (f', p') \<Rightarrow> run_timer n f' p')"

text \<open>
  Waiting on a promise while its timer fires at most \<open>n\<close> times: \<open>None\<close> when it is still
  pending after that, otherwise the error it was rejected with or the state at the
  moment it was fulfilled.
\<close>

fun await :: "nat \<Rightarrow> promise \<Rightarrow> 'h NebulaAudio \<Rightarrow> (error + 'h NebulaAudio) option" where
  "await n Resolved p = Some (Inr p)"
| "await n (Rejected e) p = Some (Inl e)"
| "await n (Pending f) p =
     (case run_timer n f p of (f', p') \<Rightarrow> if cleared f' then Some (Inr p') else None)"

subsection \<open>The src setter\<close>

text \<open>
  The callback given to \<open>then\<close>. Its result is the promise of the inner \<open>setVolume\<close>
  call, which the source drops: nothing waits on it, and its timer keeps firing.
\<close>

definition src_then :: "string \<Rightarrow> real \<Rightarrow> 'h NebulaAudio \<Rightarrow> promise \<times> 'h NebulaAudio" where
  "src_then url fadeMs p =
     (let isPlaying' = isPlaying p;
          p1 = p\<lparr>audio := write_src url (audio p)\<rparr>;
          p2 = (if isPlaying' then p1\<lparr>audio := audio_play (audio p1)\<rparr> else p1)
      in setVolume 100 fadeMs default_intervalMs p2)"

text \<open>
  \<open>set src(url)\<close>, with the timer of the first fade firing at most \<open>n\<close> times: \<open>None\<close>
  while the first promise is pending. A rejected first promise skips the callback.
\<close>

definition set_src :: "nat \<Rightarrow> string \<Rightarrow> 'h NebulaAudio \<Rightarrow> (promise \<times> 'h NebulaAudio) option" where
  "set_src n url p =
     (let fadeMs = 1500 in
      case setVolume 0 fadeMs default_intervalMs p of
        (pr, p0) \<Rightarrow>
          (case await n pr p0 of
             None \<Rightarrow> None
           | Some (Inl e) \<Rightarrow> Some (Rejected e, p0)
           | Some (Inr p1) \<Rightarrow> Some (src_then url fadeMs p1)))"

subsection \<open>Event handling\<close>

text \<open>
  \<open>this._eventHandlers\<close> is a plain object. Looking an event name up in it finds the
  array stored under that name, or else what every plain object inherits from
  \<open>Object.prototype\<close>, or else nothing. The table lists the property names of
  \<open>Object.prototype\<close>, each with the \<open>length\<close> of the value it holds: the number of
  parameters of a function, \<open>None\<close> for the object that \<open>__proto__\<close> yields, which has
  no \<open>length\<close>.
\<close>

definition object_prototype :: "string \<rightharpoonup> nat option" where
  "object_prototype = map_of
     [(''constructor'', Some 1), (''hasOwnProperty'', Some 1), (''isPrototypeOf'', Some 1),
      (''propertyIsEnumerable'', Some 1), (''toLocaleString'', Some 0),
      (''toString'', Some 0), (''valueOf'', Some 0), (''__proto__'', None),
      (''__defineGetter__'', Some 2), (''__defineSetter__'', Some 2),
      (''__lookupGetter__'', Some 1), (''__lookupSetter__'', Some 1)]"

datatype 'h registry_value = Absent | Handlers "'h handler_array" | Inherited "nat option"

definition registry_get :: "'h NebulaAudio \<Rightarrow> string \<Rightarrow> 'h registry_value" where
  "registry_get p event =
     (case eventHandlers p event of
        Some a \<Rightarrow> Handlers a
      | None \<Rightarrow> (case object_prototype event of
                   Some len \<Rightarrow> Inherited len
                 | None \<Rightarrow> Absent))"

text \<open>
  A number is an array index when it is an integer from 0 to \<open>2^32 - 2\<close>; the length of
  an array is at most \<open>2^32 - 1\<close>.
\<close>

definition max_length :: nat where
  "max_length = 4294967295"

definition is_array_index :: "real \<Rightarrow> bool" where
  "is_array_index i = (i = of_int \<lfloor>i\<rfloor> \<and> 0 \<le> i \<and> i < real max_length)"

fun slot_handler :: "'h slot \<Rightarrow> 'h option" where
  "slot_handler (Fn h) = Some h"
| "slot_handler s = None"

text \<open>
  Reading \<open>eventHandlers[i]\<close>: a handler, or \<open>None\<close> for \<open>null\<close> and for the \<open>undefined\<close>
  of a hole, of an index beyond the end, or of a key under which nothing is stored.
\<close>

definition read_slot :: "'h handler_array \<Rightarrow> real \<Rightarrow> 'h option" where
  "read_slot a i =
     (if is_array_index i
      then (if nat \<lfloor>i\<rfloor> < length (slots a) then slot_handler (slots a ! nat \<lfloor>i\<rfloor>) else None)
      else (case extra a i of None \<Rightarrow> None | Some s \<Rightarrow> slot_handler s))"

text \<open>
  \<open>eventHandlers.push(handler)\<close>. At the maximal length the handler is stored under the
  key \<open>2^32 - 1\<close>, which is not an array index, and setting the new length throws a
  \<open>RangeError\<close>.
\<close>

definition push :: "'h handler_array \<Rightarrow> 'h \<Rightarrow> error option \<times> 'h handler_array" where
  "push a h =
     (if length (slots a) < max_length then (None, a\<lparr>slots := slots a @ [Fn h]\<rparr>)
      else (Some RangeError, a\<lparr>extra := (extra a)(real (length (slots a)) \<mapsto> Fn h)\<rparr>))"

text \<open>
  \<open>on\<close> returns the index, or the exception it ends in, and the player. An inherited
  value is not an array: calling its \<open>push\<close> throws a \<open>TypeError\<close>. A \<open>push\<close> that
  throws has already changed the array, which is the one stored in the player.
\<close>

definition on :: "string \<Rightarrow> 'h \<Rightarrow> 'h NebulaAudio \<Rightarrow> (error + nat) \<times> 'h NebulaAudio" where
  "on event handler p =
     (case registry_get p event of
        Inherited len \<Rightarrow> (Inl TypeError, p)
      | v \<Rightarrow>
          (let eventHandlers0 =
                 (case v of Handlers a \<Rightarrow> a | _ \<Rightarrow> \<lparr>slots = [], extra = Map.empty\<rparr>)
           in case push eventHandlers0 handler of
                (Some e, eventHandlers1) \<Rightarrow>
                  (Inl e,
                   case v of
                     Handlers a \<Rightarrow> p\<lparr>eventHandlers := (eventHandlers p)(event \<mapsto> eventHandlers1)\<rparr>
                   | _ \<Rightarrow> p)
              | (None, eventHandlers1) \<Rightarrow>
                  (Inr (length (slots eventHandlers1) - 1),
                   p\<lparr>audio := addEventListener event
                                (read_slot eventHandlers1 (real (length (slots eventHandlers1) - 1)))
                                (audio p),
                     eventHandlers := (eventHandlers p)(event \<mapsto> eventHandlers1)\<rparr>)))"

text \<open>
  \<open>eventHandlers[i] = null\<close>: a store at an array index beyond the end extends the
  array, leaving holes between the old end and \<open>i\<close>; a store under any other number
  leaves the slots and the length alone.
\<close>

definition store_null :: "'h handler_array \<Rightarrow> real \<Rightarrow> 'h handler_array" where
  "store_null a i =
     (if is_array_index i
      then (if nat \<lfloor>i\<rfloor> < length (slots a) then a\<lparr>slots := (slots a)[nat \<lfloor>i\<rfloor> := Null]\<rparr>
            else a\<lparr>slots := slots a @ replicate (nat \<lfloor>i\<rfloor> - length (slots a)) Empty @ [Null]\<rparr>)
      else a\<lparr>extra := (extra a)(i \<mapsto> Null)\<rparr>)"

text \<open>
  One step of the \<open>forEach\<close> in \<open>off\<close>: holes are skipped, every other slot (also one
  that is \<open>null\<close> already) is passed to \<open>removeEventListener\<close> and set to \<open>null\<close>.
\<close>

definition forEach_step ::
  "string \<Rightarrow> 'h slot list \<times> 'h audio_element \<Rightarrow> nat \<Rightarrow> 'h slot list \<times> 'h audio_element" where
  "forEach_step event s index =
     (case s of (hs, a) \<Rightarrow>
        if hs ! index = Empty then (hs, a)
        else (hs[index := Null], removeEventListener event (slot_handler (hs ! index)) a))"

text \<open>
  \<open>off\<close> returns the exception it ends in, if any, and the player. \<open>handlerIndex\<close> is a
  number, or \<open>None\<close> when the argument is omitted.

  With an inherited value in place of an array: a \<open>length\<close> that is 0 or missing makes
  \<open>off\<close> return at once; otherwise, without \<open>handlerIndex\<close>, calling its \<open>forEach\<close>
  throws a \<open>TypeError\<close>; with \<open>handlerIndex\<close>, what is read from the inherited function
  under a number is \<open>undefined\<close> (or the \<open>null\<close> of an earlier such call), the \<open>null\<close> is
  stored on that function, which is no part of the player, and the function is stored
  under the name it was found under, which changes no later lookup.
\<close>

definition off ::
  "string \<Rightarrow> real option \<Rightarrow> 'h NebulaAudio \<Rightarrow> error option \<times> 'h NebulaAudio" where
  "off event handlerIndex p =
     (case registry_get p event of
        Absent \<Rightarrow> (None, p)
      | Inherited len \<Rightarrow>
          (if len = None \<or> len = Some 0 then (None, p)
           else case handlerIndex of
                  Some i \<Rightarrow> (None, p\<lparr>audio := removeEventListener event None (audio p)\<rparr>)
                | None \<Rightarrow> (Some TypeError, p))
      | Handlers a \<Rightarrow>
          if length (slots a) = 0 then (None, p)
          else
            (case handlerIndex of
               Some i \<Rightarrow>
                 (None,
                  p\<lparr>audio := removeEventListener event (read_slot a i) (audio p),
                    eventHandlers := (eventHandlers p)(event \<mapsto> store_null a i)\<rparr>)
             | None \<Rightarrow>
                 (case foldl (forEach_step event) (slots a, audio p) [0..<length (slots a)] of
                    (hs', au) \<Rightarrow>
                      (None,
                       p\<lparr>audio := au,
                         eventHandlers := (eventHandlers p)(event \<mapsto> a\<lparr>slots := hs'\<rparr>)\<rparr>))))"

section \<open>Notions used to state the properties\<close>

text \<open>A run of volume writes on the element, in order.\<close>

definition apply_writes :: "real list \<Rightarrow> 'h NebulaAudio \<Rightarrow> 'h NebulaAudio" where
  "apply_writes ws p = foldl (\<lambda>q v. q\<lparr>audio := write_volume v (audio q)\<rparr>) p ws"

text \<open>
  The easing factor and the volume of tick \<open>t\<close> as the specification writes them:
  \<open>startVolume + delta * (0.5 - cos(\<pi> * t / totalTicks) / 2)\<close>.
\<close>

definition easing :: "nat \<Rightarrow> nat \<Rightarrow> real" where
  "easing N t = 0.5 - cos (pi * real t / real N) / 2"

definition spec_swing :: "real \<Rightarrow> real \<Rightarrow> nat \<Rightarrow> nat \<Rightarrow> real" where
  "spec_swing startVolume delta' N t = startVolume + delta' * easing N t"


text \<open>The array of an event name, empty when the name has none.\<close>

definition array_of :: "'h NebulaAudio \<Rightarrow> string \<Rightarrow> 'h handler_array" where
  "array_of p event =
     (case eventHandlers p event of None \<Rightarrow> \<lparr>slots = [], extra = Map.empty\<rparr> | Some a \<Rightarrow> a)"

definition sequence_of :: "'h NebulaAudio \<Rightarrow> string \<Rightarrow> 'h slot list" where
  "sequence_of p event = slots (array_of p event)"

text \<open>A tombstone is a slot that holds no handler: \<open>null\<close>, or a hole.\<close>

fun tombstone :: "'h slot \<Rightarrow> bool" where
  "tombstone (Fn h) = False"
| "tombstone s = True"

fun live_handlers :: "'h slot list \<Rightarrow> 'h list" where
  "live_handlers [] = []"
| "live_handlers (Fn h # hs) = h # live_handlers hs"
| "live_handlers (s # hs) = live_handlers hs"

text \<open>The handlers handed to \<open>removeEventListener\<close> for an event name, in call order.\<close>

fun unregistered :: "string \<Rightarrow> 'h call list \<Rightarrow> 'h list" where
  "unregistered event [] = []"
| "unregistered event (RemoveEventListener e (Some h) # cs) =
     (if e = event then h # unregistered event cs else unregistered event cs)"
| "unregistered event (c # cs) = unregistered event cs"

text \<open>What \<open>forEach\<close> in \<open>off\<close> leaves in a slot: a hole stays a hole, the rest is \<open>null\<close>.\<close>

fun nulled :: "'h slot \<Rightarrow> 'h slot" where
  "nulled Empty = Empty"
| "nulled s = Null"

text \<open>A slot that is not a hole: the slots \<open>forEach\<close> visits.\<close>

fun present :: "'h slot \<Rightarrow> bool" where
  "present Empty = False"
| "present s = True"

text \<open>
  How the array of an event name may change: it does not get shorter, a slot without a
  handler stays without one, and a \<open>null\<close> stays \<open>null\<close>.
\<close>

definition grows :: "'h slot list \<Rightarrow> 'h slot list \<Rightarrow> bool" where
  "grows hs hs' =
     (length hs \<le> length hs' \<and>
      (\<forall>i < length hs. (tombstone (hs ! i) \<longrightarrow> tombstone (hs' ! i))
                      \<and> (hs ! i = Null \<longrightarrow> hs' ! i = Null)))"

text \<open>
  Sequences of calls of \<open>on\<close> and \<open>off\<close>; a call that throws leaves the player as the
  exception found it, and the sequence goes on.
\<close>

datatype 'h op = On string 'h | Off string "real option"

fun op_event :: "'h op \<Rightarrow> string" where
  "op_event (On event h) = event"
| "op_event (Off event i) = event"

fun apply_op :: "'h op \<Rightarrow> 'h NebulaAudio \<Rightarrow> 'h NebulaAudio" where
  "apply_op (On event h) p = snd (on event h p)"
| "apply_op (Off event i) p = snd (off event i p)"

fun run_ops :: "'h op list \<Rightarrow> 'h NebulaAudio \<Rightarrow> 'h NebulaAudio" where
  "run_ops [] p = p"
| "run_ops (x # xs) p = run_ops xs (apply_op x p)"

section \<open>The interval timer of a fade\<close>

lemma apply_writes_Nil [simp]: "apply_writes [] p = p"
  by (simp add: apply_writes_def)

lemma apply_writes_snoc:
  "apply_writes (ws @ [v]) p =
     (apply_writes ws p)\<lparr>audio := write_volume v (audio (apply_writes ws p))\<rparr>"
  by (simp add: apply_writes_def)

lemma apply_writes_Cons:
  "apply_writes (v # ws) p = apply_writes ws (p\<lparr>audio := write_volume v (audio p)\<rparr>)"
  by (simp add: apply_writes_def)


lemma volume_apply_writes:
  "volume (audio (apply_writes ws p)) = (if ws = [] then volume (audio p) else last ws)"
  by (induction ws arbitrary: p) (simp_all add: apply_writes_Cons write_volume_def)

lemma rest_apply_writes:
  "paused (audio (apply_writes ws p)) = paused (audio p)"
  "src (audio (apply_writes ws p)) = src (audio p)"
  "eventHandlers (apply_writes ws p) = eventHandlers p"
  by (induction ws arbitrary: p) (simp_all add: apply_writes_Cons write_volume_def)

lemma apply_writes_eq:
  "apply_writes ws p =
     p\<lparr>audio := (audio p)\<lparr>volume := (if ws = [] then volume (audio p) else last ws),
                           calls := calls (audio p) @ map VolumeWrite ws\<rparr>\<rparr>"
proof (induction ws rule: rev_induct)
  case Nil
  show ?case by simp
next
  case (snoc v ws)
  show ?case
    unfolding apply_writes_snoc by (subst (1 2) snoc) (simp add: write_volume_def)
qed

lemma run_timer_cleared: "cleared f \<Longrightarrow> run_timer n f p = (f, p)"
  by (cases n) simp_all

lemma run_timer_add:
  "run_timer (a + b) f p = (case run_timer a f p of (f', p') \<Rightarrow> run_timer b f' p')"
proof (induction a arbitrary: f p)
  case 0
  show ?case by simp
next
  case (Suc a)
  show ?case
  proof (cases "cleared f")
    case True
    then show ?thesis by (simp add: run_timer_cleared)
  next
    case False
    then show ?thesis
      by (cases "timer_callback f p") (auto simp: Suc.IH)
  qed
qed

text \<open>While the counter stays below \<open>ticks\<close>, each firing writes one volume and counts on.\<close>

lemma run_timer_before_end:
  "\<not> cleared f \<Longrightarrow> tick f = int t \<Longrightarrow> t + k \<le> nat (ticks f) \<Longrightarrow> 1 \<le> t \<Longrightarrow>
   run_timer k f p =
     (f\<lparr>tick := int (t + k)\<rparr>,
      apply_writes
        (map (\<lambda>j. swing_volume (originalVolume f) (delta f) (ticks f) (int j)) [t..<t + k]) p)"
proof (induction k arbitrary: f p t)
  case 0
  then show ?case by simp
next
  case (Suc k)
  have nz: "ticks f \<noteq> 0" using Suc.prems by auto
  have ne: "tick f + 1 \<noteq> ticks f + 1" using Suc.prems by auto
  let ?p' = "p\<lparr>audio := write_volume
                (swing_volume (originalVolume f) (delta f) (ticks f) (tick f)) (audio p)\<rparr>"
  have cb: "timer_callback f p = Inr (f\<lparr>tick := tick f + 1\<rparr>, ?p')"
    using nz ne by (simp add: timer_callback_def Let_def)
  have step: "run_timer (Suc k) f p = run_timer k (f\<lparr>tick := tick f + 1\<rparr>) ?p'"
    using Suc.prems(1) cb by simp
  have ih: "run_timer k (f\<lparr>tick := tick f + 1\<rparr>) ?p' =
     (f\<lparr>tick := int (Suc t + k)\<rparr>,
      apply_writes
        (map (\<lambda>j. swing_volume (originalVolume f) (delta f) (ticks f) (int j))
           [Suc t..<Suc t + k]) ?p')"
    using Suc.IH[of "f\<lparr>tick := tick f + 1\<rparr>" "Suc t" ?p'] Suc.prems by simp
  have upt: "[t..<t + Suc k] = t # [Suc t..<Suc t + k]"
    by (simp add: upt_conv_Cons)
  show ?case
    unfolding step ih upt using Suc.prems(2) by (simp add: apply_writes_Cons)
qed

lemma run_timer_early:
  assumes "ticks f = int N" "tick f = 1" "\<not> cleared f" "k < N"
  shows "run_timer k f p =
     (f\<lparr>tick := int (Suc k)\<rparr>,
      apply_writes
        (map (\<lambda>j. swing_volume (originalVolume f) (delta f) (ticks f) (int j)) [1..<Suc k]) p)"
  using run_timer_before_end[of f 1 k p] assms by simp

lemma run_timer_last_step:
  assumes "\<not> cleared f" "tick f = ticks f" "ticks f \<noteq> 0"
  shows "run_timer (Suc n) f p =
     (f\<lparr>tick := ticks f + 1, cleared := True\<rparr>,
      p\<lparr>audio := write_volume
            (swing_volume (originalVolume f) (delta f) (ticks f) (ticks f)) (audio p)\<rparr>)"
  using assms by (simp add: timer_callback_def Let_def run_timer_cleared)

text \<open>From the \<open>ticks\<close>-th firing on, the timer is cleared and \<open>ticks\<close> volumes are written.\<close>

lemma run_timer_done:
  assumes "ticks f = int N" "tick f = 1" "\<not> cleared f" "1 \<le> N" "N \<le> k"
  shows "run_timer k f p =
     (f\<lparr>tick := int (Suc N), cleared := True\<rparr>,
      apply_writes
        (map (\<lambda>j. swing_volume (originalVolume f) (delta f) (ticks f) (int j)) [1..<Suc N]) p)"
proof -
  let ?sv = "\<lambda>j. swing_volume (originalVolume f) (delta f) (ticks f) (int j)"
  obtain m where N: "N = Suc m" using assms(4) by (cases N) auto
  have k: "k = m + Suc (k - N)" using assms(5) N by simp
  have first: "run_timer m f p = (f\<lparr>tick := int (Suc m)\<rparr>, apply_writes (map ?sv [1..<Suc m]) p)"
    using run_timer_early[of f N m p] assms N by simp
  have last: "run_timer (Suc (k - N)) (f\<lparr>tick := int (Suc m)\<rparr>)
                (apply_writes (map ?sv [1..<Suc m]) p) =
     (f\<lparr>tick := int (Suc N), cleared := True\<rparr>,
      apply_writes (map ?sv [1..<Suc m] @ [?sv N]) p)"
    using run_timer_last_step[of "f\<lparr>tick := int (Suc m)\<rparr>" "k - N"
        "apply_writes (map ?sv [1..<Suc m]) p"]
      assms(1,3) N by (simp add: apply_writes_snoc)
  have "run_timer k f p = run_timer (m + Suc (k - N)) f p" using k by simp
  also have "\<dots> = (f\<lparr>tick := int (Suc N), cleared := True\<rparr>,
      apply_writes (map ?sv [1..<Suc m] @ [?sv N]) p)"
    unfolding run_timer_add first using last by simp
  also have "map ?sv [1..<Suc m] @ [?sv N] = map ?sv [1..<Suc N]"
    using N by simp
  finally show ?thesis .
qed

text \<open>With \<open>ticks = 0\<close> every firing ends in the exception and changes nothing.\<close>

lemma run_timer_zero_ticks: "ticks f = 0 \<Longrightarrow> run_timer k f p = (f, p)"
  by (induction k) (simp_all add: timer_callback_def)

subsection \<open>The easing curve\<close>

lemma swing_volume_spec: "swing_volume s d (int N) (int t) = spec_swing s d N t"
  by (simp add: swing_volume_def spec_swing_def easing_def mult.commute)

lemma easing_N: "0 < N \<Longrightarrow> easing N N = 1"
  by (simp add: easing_def)

lemma last_fade_writes: "1 \<le> N \<Longrightarrow> last (map f [1..<Suc N]) = f N"
  by (simp del: upt_Suc add: last_map)

lemma fade_writes_spec:
  "map (\<lambda>j. swing_volume s d (int N) (int j)) ts = map (spec_swing s d N) ts"
  by (simp add: swing_volume_spec)

lemma spec_swing_end: "0 < N \<Longrightarrow> spec_swing s d N N = s + d"
  by (simp add: spec_swing_def easing_N)

section \<open>Starting a fade\<close>

lemma setVolume_starts_fade:
  assumes "0 \<le> newVolume" "newVolume \<le> 100" "newVolume / 100 \<noteq> volume (audio p)"
    and "fadeMs \<noteq> 0" "intervalMs \<noteq> 0"
  shows "setVolume newVolume fadeMs intervalMs p =
     (Pending \<lparr>originalVolume = volume (audio p), delta = newVolume / 100 - volume (audio p),
               ticks = \<lfloor>fadeMs / intervalMs\<rfloor>, tick = 1, cleared = False\<rparr>, p)"
  using assms by (simp add: setVolume_def Let_def)

lemma floor_zero_ticks:
  fixes fadeMs intervalMs :: real
  assumes "0 < fadeMs" "fadeMs < intervalMs"
  shows "\<lfloor>fadeMs / intervalMs\<rfloor> = 0"
proof -
  have "0 \<le> fadeMs / intervalMs" using assms by simp
  moreover have "fadeMs / intervalMs < 1" using assms by simp
  ultimately show ?thesis by (simp add: floor_eq_iff)
qed

text \<open>
  Whenever the duration is positive and shorter than the interval, the promise of a
  fade with a nonzero delta stays pending however often the timer fires.
\<close>

lemma setVolume_zero_ticks_pending:
  assumes "0 \<le> newVolume" "newVolume \<le> 100" "newVolume / 100 \<noteq> volume (audio p)"
    and "0 < fadeMs" "fadeMs < intervalMs"
  shows "\<exists>f. setVolume newVolume fadeMs intervalMs p = (Pending f, p)
           \<and> (\<forall>n. await n (Pending f) p = None)"
  using assms floor_zero_ticks[of fadeMs intervalMs]
  by (auto simp: setVolume_def Let_def run_timer_zero_ticks)

lemma fade_run:
  assumes range: "0 \<le> newVolume" "newVolume \<le> 100"
    and differs: "newVolume / 100 \<noteq> volume (audio p)"
    and pos: "0 < fadeMs" "0 < intervalMs"
    and N: "N = nat \<lfloor>fadeMs / intervalMs\<rfloor>" "1 \<le> N"
    and k: "N \<le> k"
    and f0: "f0 = \<lparr>originalVolume = volume (audio p), delta = newVolume / 100 - volume (audio p),
                   ticks = \<lfloor>fadeMs / intervalMs\<rfloor>, tick = 1, cleared = False\<rparr>"
    and ws: "ws = map (spec_swing (volume (audio p)) (newVolume / 100 - volume (audio p)) N)
                    [1..<Suc N]"
  shows "setVolume newVolume fadeMs intervalMs p = (Pending f0, p)"
    and "\<not> cleared (fst (run_timer (N - 1) f0 p))"
    and "run_timer k f0 p = (f0\<lparr>tick := int (Suc N), cleared := True\<rparr>, apply_writes ws p)"
proof -
  have "0 < \<lfloor>fadeMs / intervalMs\<rfloor>" using N by linarith
  then have tk: "ticks f0 = int N" using N f0 by simp
  have f0': "tick f0 = 1" "\<not> cleared f0" "originalVolume f0 = volume (audio p)"
    "delta f0 = newVolume / 100 - volume (audio p)"
    using f0 by simp_all
  show "setVolume newVolume fadeMs intervalMs p = (Pending f0, p)"
    unfolding f0 using setVolume_starts_fade[of newVolume p fadeMs intervalMs] range differs pos
    by simp
  show "\<not> cleared (fst (run_timer (N - 1) f0 p))"
    using run_timer_early[of f0 N "N - 1" p] tk f0' N(2) by simp
  show "run_timer k f0 p = (f0\<lparr>tick := int (Suc N), cleared := True\<rparr>, apply_writes ws p)"
    using run_timer_done[of f0 N k p] tk f0' N(2) k
    by (simp add: ws fade_writes_spec)
qed

section \<open>The callback of the src setter\<close>

lemma src_then_eq:
  assumes "volume (audio p) = 0"
  shows "src_then url 1500 p =
     (Pending \<lparr>originalVolume = 0, delta = 1, ticks = 115, tick = 1, cleared = False\<rparr>,
      p\<lparr>audio := (audio p)\<lparr>src := url,
            calls := calls (audio p) @ [SrcWrite url] @ (if paused (audio p) then [] else [PlayCall])\<rparr>\<rparr>)"
  using assms
  by (simp add: src_then_def isPlaying_def Let_def write_src_def audio_play_def
      setVolume_def default_intervalMs_def)

lemma src_then_after_writes:
  assumes "ws \<noteq> []" "last ws = 0"
  shows "src_then url 1500 (apply_writes ws p) =
     (Pending \<lparr>originalVolume = 0, delta = 1, ticks = 115, tick = 1, cleared = False\<rparr>,
      p\<lparr>audio := (audio p)\<lparr>volume := 0, src := url,
            calls := calls (audio p) @ map VolumeWrite ws @ [SrcWrite url]
                     @ (if paused (audio p) then [] else [PlayCall])\<rparr>\<rparr>)"
proof -
  have v: "volume (audio (apply_writes ws p)) = 0"
    using assms by (simp add: volume_apply_writes)
  show ?thesis
    unfolding src_then_eq[OF v] using assms by (simp add: apply_writes_eq)
qed

section \<open>The arrays of handlers\<close>

lemma registry_get_own: "eventHandlers p event = Some a \<Longrightarrow> registry_get p event = Handlers a"
  by (simp add: registry_get_def)

lemma registry_get_absent:
  "eventHandlers p event = None \<Longrightarrow> object_prototype event = None \<Longrightarrow>
   registry_get p event = Absent"
  by (simp add: registry_get_def)

lemma registry_get_inherited:
  "eventHandlers p event = None \<Longrightarrow> object_prototype event = Some len \<Longrightarrow>
   registry_get p event = Inherited len"
  by (simp add: registry_get_def)

lemma sequence_of_own: "eventHandlers p event = Some a \<Longrightarrow> sequence_of p event = slots a"
  by (simp add: sequence_of_def array_of_def)

lemma sequence_of_none: "eventHandlers p event = None \<Longrightarrow> sequence_of p event = []"
  by (simp add: sequence_of_def array_of_def)

lemma is_array_index_nat: "n < max_length \<Longrightarrow> is_array_index (real n)"
  by (simp add: is_array_index_def)




lemma forEach_prefix:
  "n \<le> length hs \<Longrightarrow>
   foldl (forEach_step event) (hs, a) [0..<n] =
     (map nulled (take n hs) @ drop n hs,
      a\<lparr>calls := calls a @
           map (\<lambda>s. RemoveEventListener event (slot_handler s)) (filter present (take n hs))\<rparr>)"
proof (induction n)
  case 0
  show ?case by simp
next
  case (Suc n)
  then have n: "n < length hs" by simp
  let ?hs = "map nulled (take n hs) @ drop n hs"
  have nth: "?hs ! n = hs ! n" using n by (simp add: nth_append)
  have tk: "take (Suc n) hs = take n hs @ [hs ! n]"
    using n by (simp add: take_Suc_conv_app_nth)
  have dr: "drop n hs = hs ! n # drop (Suc n) hs"
    using n by (simp add: Cons_nth_drop_Suc)
  have upd: "?hs[n := Null] = map nulled (take n hs) @ Null # drop (Suc n) hs"
    using n by (simp add: dr list_update_append)
  show ?case
  proof (cases "hs ! n")
    case Empty
    then show ?thesis
      using Suc n nth by (simp add: forEach_step_def tk dr)
  next
    case Null
    then show ?thesis
      using Suc n nth upd by (simp add: forEach_step_def tk removeEventListener_def)
  next
    case (Fn h)
    then show ?thesis
      using Suc n nth upd by (simp add: forEach_step_def tk removeEventListener_def)
  qed
qed

lemma forEach_all:
  "foldl (forEach_step event) (hs, a) [0..<length hs] =
     (map nulled hs,
      a\<lparr>calls := calls a @
           map (\<lambda>s. RemoveEventListener event (slot_handler s)) (filter present hs)\<rparr>)"
  using forEach_prefix[of "length hs" hs event a] by simp

lemma off_all_eq:
  assumes "eventHandlers p event = Some a" "slots a \<noteq> []"
  shows "off event None p =
     (None,
      p\<lparr>audio := (audio p)\<lparr>calls := calls (audio p) @
            map (\<lambda>s. RemoveEventListener event (slot_handler s)) (filter present (slots a))\<rparr>,
        eventHandlers := (eventHandlers p)(event \<mapsto> a\<lparr>slots := map nulled (slots a)\<rparr>)\<rparr>)"
  using assms by (simp add: off_def registry_get_own forEach_all)

lemma off_index_eq:
  assumes "eventHandlers p event = Some a" "slots a \<noteq> []"
  shows "off event (Some i) p =
     (None,
      p\<lparr>audio := removeEventListener event (read_slot a i) (audio p),
        eventHandlers := (eventHandlers p)(event \<mapsto> store_null a i)\<rparr>)"
  using assms by (simp add: off_def registry_get_own)

lemma off_empty:
  assumes "eventHandlers p event = Some a" "slots a = []"
  shows "off event handlerIndex p = (None, p)"
  using assms by (simp add: off_def registry_get_own)


text \<open>Without an array of its own for the name, \<open>off\<close> changes no array.\<close>

lemma off_none:
  assumes "eventHandlers p event = None"
  shows "eventHandlers (snd (off event handlerIndex p)) = eventHandlers p"
  using assms
  by (auto simp: off_def registry_get_def split: option.splits)

lemma tombstone_nulled: "tombstone (nulled s)"
  by (cases s) simp_all

lemma unregistered_append:
  "unregistered event (cs @ ds) = unregistered event cs @ unregistered event ds"
  by (induction event cs rule: unregistered.induct) simp_all

lemma unregistered_forEach:
  "unregistered event (map (\<lambda>s. RemoveEventListener event (slot_handler s)) (filter present hs))
     = live_handlers hs"
  by (induction hs rule: live_handlers.induct) simp_all

text \<open>\<open>on\<close> for a name that is not inherited, below the maximal length.\<close>

lemma on_eq:
  assumes "eventHandlers p event \<noteq> None \<or> object_prototype event = None"
    and "length (sequence_of p event) < max_length"
  shows "on event handler p =
     (Inr (length (sequence_of p event)),
      p\<lparr>audio := addEventListener event (Some handler) (audio p),
        eventHandlers := (eventHandlers p)
          (event \<mapsto> (array_of p event)\<lparr>slots := sequence_of p event @ [Fn handler]\<rparr>)\<rparr>)"
proof -
  have idx: "is_array_index (real (length (sequence_of p event)))"
    using assms(2) by (rule is_array_index_nat)
  show ?thesis
  proof (cases "eventHandlers p event")
    case None
    then have "registry_get p event = Absent"
      using assms(1) by (simp add: registry_get_absent)
    then show ?thesis
      using None idx assms(2)
      by (simp add: on_def push_def read_slot_def sequence_of_def array_of_def)
  next
    case (Some a)
    then have "registry_get p event = Handlers a"
      by (rule registry_get_own)
    then show ?thesis
      using Some idx assms(2)
      by (simp add: on_def push_def read_slot_def sequence_of_def array_of_def)
  qed
qed

lemma on_inherited:
  assumes "eventHandlers p event = None" "object_prototype event = Some len"
  shows "on event h p = (Inl TypeError, p)"
  using registry_get_inherited[OF assms] by (simp add: on_def)

lemma on_full:
  assumes "eventHandlers p event = Some a" "max_length \<le> length (slots a)"
  shows "on event h p =
     (Inl RangeError,
      p\<lparr>eventHandlers := (eventHandlers p)
           (event \<mapsto> a\<lparr>extra := (extra a)(real (length (slots a)) \<mapsto> Fn h)\<rparr>)\<rparr>)"
  using registry_get_own[OF assms(1)] assms(2) by (simp add: on_def push_def)


lemma sequence_of_constructor: "sequence_of (constructor url) event = []"
  by (simp add: sequence_of_def array_of_def constructor_def)

lemma on_constructor:
  assumes "object_prototype event = None"
  shows "on event h (constructor url) =
     (Inr 0,
      (constructor url)\<lparr>audio := addEventListener event (Some h) (audio (constructor url)),
        eventHandlers := [event \<mapsto> \<lparr>slots = [Fn h], extra = Map.empty\<rparr>]\<rparr>)"
proof -
  have e: "eventHandlers (constructor url :: 'a NebulaAudio) = Map.empty"
    by (simp add: constructor_def)
  have a: "array_of (constructor url :: 'a NebulaAudio) event = \<lparr>slots = [], extra = Map.empty\<rparr>"
    by (simp add: array_of_def e)
  show ?thesis
    using on_eq[of "constructor url" event h] assms
    by (simp add: sequence_of_constructor max_length_def a e)
qed

text \<open>Whatever \<open>on\<close> ends in, the slots of every array stay or get one more.\<close>

lemma on_slots:
  "sequence_of (snd (on event h p)) e =
     (if e = event \<and> fst (on event h p) = Inr (length (sequence_of p event))
      then sequence_of p event @ [Fn h] else sequence_of p e)"
proof (cases "registry_get p event")
  case Absent
  then have "eventHandlers p event = None"
    by (simp add: registry_get_def split: option.splits)
  then show ?thesis
    using Absent by (simp add: on_def push_def sequence_of_def array_of_def max_length_def)
next
  case (Inherited len)
  then show ?thesis by (simp add: on_def)
next
  case (Handlers a)
  then have "eventHandlers p event = Some a"
    by (simp add: registry_get_def split: option.splits)
  then show ?thesis
    using Handlers by (simp add: on_def push_def sequence_of_def array_of_def)
qed

lemma on_handle:
  assumes "fst (on event h p) = Inr k"
  shows "k = length (sequence_of p event)"
    and "sequence_of (snd (on event h p)) event = sequence_of p event @ [Fn h]"
proof -
  show k: "k = length (sequence_of p event)"
  proof (cases "registry_get p event")
    case Absent
    then have "eventHandlers p event = None"
      by (simp add: registry_get_def split: option.splits)
    then show ?thesis
      using Absent assms
      by (simp add: on_def push_def sequence_of_def array_of_def max_length_def)
  next
    case (Inherited len)
    then show ?thesis using assms by (simp add: on_def)
  next
    case (Handlers a)
    then have "eventHandlers p event = Some a"
      by (simp add: registry_get_def split: option.splits)
    then show ?thesis
      using Handlers assms
      by (simp add: on_def push_def sequence_of_def array_of_def split: if_splits)
  qed
  show "sequence_of (snd (on event h p)) event = sequence_of p event @ [Fn h]"
    using assms k by (simp add: on_slots)
qed

lemma grows_refl: "grows hs hs"
  by (simp add: grows_def)

lemma grows_trans: "grows a b \<Longrightarrow> grows b c \<Longrightarrow> grows a c"
  by (auto simp: grows_def)

lemma grows_append: "grows hs (hs @ xs)"
  by (simp add: grows_def nth_append)

lemma grows_store_null: "grows (slots a) (slots (store_null a i))"
  by (auto simp: grows_def store_null_def nth_append nth_list_update)

lemma grows_nulled: "grows hs (map nulled hs)"
  by (auto simp: grows_def tombstone_nulled)

lemma off_other:
  assumes "e \<noteq> event"
  shows "eventHandlers (snd (off event i p)) e = eventHandlers p e"
proof (cases "eventHandlers p event")
  case None
  then show ?thesis by (simp add: off_none)
next
  case (Some a)
  show ?thesis
  proof (cases "slots a = []")
    case True
    then show ?thesis using Some by (simp add: off_empty)
  next
    case False
    then show ?thesis
      using Some assms by (cases i) (simp_all add: off_all_eq off_index_eq)
  qed
qed

lemma sequence_of_off:
  "sequence_of (snd (off event i p)) event =
     (if sequence_of p event = [] then []
      else case i of Some j \<Rightarrow> slots (store_null (array_of p event) j)
                   | None \<Rightarrow> map nulled (sequence_of p event))"
proof (cases "eventHandlers p event")
  case None
  then have "eventHandlers (snd (off event i p)) event = None"
    by (simp add: off_none)
  then show ?thesis using None by (simp add: sequence_of_none)
next
  case (Some a)
  show ?thesis
  proof (cases "slots a = []")
    case True
    then show ?thesis using Some by (simp add: off_empty sequence_of_own)
  next
    case False
    then show ?thesis
      using Some
      by (cases i) (simp_all add: off_all_eq off_index_eq sequence_of_def array_of_def)
  qed
qed

lemma sequence_of_off_other:
  "e \<noteq> event \<Longrightarrow> sequence_of (snd (off event i p)) e = sequence_of p e"
  by (simp add: sequence_of_def array_of_def off_other)

lemma apply_op_other:
  "op_event x \<noteq> e \<Longrightarrow> sequence_of (apply_op x p) e = sequence_of p e"
  by (cases x) (simp_all add: on_slots sequence_of_off_other)

lemma run_ops_other:
  "\<forall>x \<in> set ops. op_event x \<noteq> e \<Longrightarrow> sequence_of (run_ops ops p) e = sequence_of p e"
  by (induction ops arbitrary: p) (simp_all add: apply_op_other)

lemma off_grows: "grows (sequence_of p e) (sequence_of (snd (off e i p)) e)"
proof -
  have s: "sequence_of p e = slots (array_of p e)"
    by (simp add: sequence_of_def)
  have "grows (slots (array_of p e)) []" if "slots (array_of p e) = []"
    using that by (simp add: grows_def)
  then show ?thesis
    unfolding sequence_of_off
    by (cases i) (simp_all add: s grows_nulled grows_store_null)
qed

lemma apply_op_grows: "grows (sequence_of p e) (sequence_of (apply_op x p) e)"
proof (cases "op_event x = e")
  case False
  then show ?thesis by (simp add: apply_op_other grows_refl)
next
  case True
  show ?thesis
  proof (cases x)
    case (On event h)
    then show ?thesis using True by (simp add: on_slots grows_append grows_refl)
  next
    case (Off event i)
    then show ?thesis using True by (simp add: off_grows)
  qed
qed

lemma run_ops_grows: "grows (sequence_of p e) (sequence_of (run_ops ops p) e)"
proof (induction ops arbitrary: p)
  case Nil
  show ?case by (simp add: grows_refl)
next
  case (Cons x xs)
  show ?case
    using grows_trans[OF apply_op_grows[of p e x] Cons[of "apply_op x p"]] by simp
qed

section \<open>Properties of setVolume\<close>





text \<open>
  C2. For every volume below 0 or above 100, \<open>setVolume\<close> returns a promise rejected with
  the out-of-range error, and the player is returned as it was: the volume is unchanged,
  nothing is written, and there is no timer (the promise is not pending on one). The
  failure is a state of the returned promise, not an exception of the call.
\<close>

theorem setVolume_out_of_range:
  assumes "newVolume < 0 \<or> 100 < newVolume"
  shows "setVolume newVolume fadeMs intervalMs p = (Rejected InvalidArgument, p)"
  using assms by (auto simp: setVolume_def)

theorem setVolume_out_of_range_witness:
  "setVolume 150 default_fadeMs default_intervalMs (constructor None :: nat NebulaAudio)
     = (Rejected InvalidArgument, constructor None)
   \<and> setVolume (- 1) 0 0 (constructor None :: nat NebulaAudio)
     = (Rejected InvalidArgument, constructor None)"
  using setVolume_out_of_range[of 150 default_fadeMs default_intervalMs
      "constructor None :: nat NebulaAudio"]
    setVolume_out_of_range[of "- 1" 0 0 "constructor None :: nat NebulaAudio"]
  by simp

text \<open>
  C3. For every volume in \<open>[0, 100]\<close>: when the normalised volume equals the current
  volume, or the duration is 0, or the interval is 0, \<open>setVolume\<close> returns an already
  resolved promise (no timer), and its only effect is one volume write, of the normalised
  target.
\<close>

theorem setVolume_short_circuit:
  assumes "0 \<le> newVolume" "newVolume \<le> 100"
    and "newVolume / 100 = volume (audio p) \<or> fadeMs = 0 \<or> intervalMs = 0"
  shows "setVolume newVolume fadeMs intervalMs p =
     (Resolved,
      p\<lparr>audio := (audio p)\<lparr>volume := newVolume / 100,
                           calls := calls (audio p) @ [VolumeWrite (newVolume / 100)]\<rparr>\<rparr>)"
  using assms by (auto simp: setVolume_def write_volume_def Let_def)

theorem setVolume_short_circuit_witness:
  "setVolume 50 0 13 (constructor None :: nat NebulaAudio) =
     (Resolved,
      \<lparr>audio = \<lparr>volume = 1 / 2, paused = True, src = [], calls = [VolumeWrite (1 / 2)]\<rparr>,
       eventHandlers = Map.empty\<rparr>)"
  using setVolume_short_circuit[of 50 "constructor None :: nat NebulaAudio" 0 13]
  by (simp add: constructor_def Audio_def)

text \<open>
  C4 asks that a fade with a nonzero delta and \<open>0 < fadeMs < intervalMs\<close> still
  resolves. The code does not: on a fresh player (volume 1), \<open>setVolume(0, 5, 13)\<close>
  returns a promise pending on a timer with \<open>ticks = 0\<close>, and the promise is still
  pending after any number of firings.
\<close>

theorem setVolume_zero_ticks_hangs:
  "setVolume 0 5 13 (constructor None :: nat NebulaAudio) =
     (Pending \<lparr>originalVolume = 1, delta = - 1, ticks = 0, tick = 1, cleared = False\<rparr>,
      constructor None)
   \<and> (\<forall>n. await n
             (Pending \<lparr>originalVolume = 1, delta = - 1, ticks = 0, tick = 1, cleared = False\<rparr>)
             (constructor None :: nat NebulaAudio) = None)"
  by (simp add: setVolume_def Let_def constructor_def Audio_def run_timer_zero_ticks)



section \<open>Properties of the src setter\<close>

text \<open>
  C9. \<open>set src(url)\<close> first calls \<open>setVolume(0, 1500)\<close>. Once that promise is fulfilled
  (after the 115 firings of its timer, or at once when the volume is 0 already), and
  not before, the callback runs: the calls on the element are then the volume writes of
  the fade-out, the last of them 0, followed by the write of \<open>src\<close>, followed by
  \<open>play()\<close> exactly when the player was not paused; and the callback has started
  \<open>setVolume(100, 1500)\<close>, whose promise is pending on a timer that has not fired yet:
  nothing of the setter waits for it.
\<close>

theorem set_src_sequence:
  assumes n: "115 \<le> n"
    and fo: "fade_out = (if volume (audio p) = 0 then [0]
               else map (spec_swing (volume (audio p)) (- volume (audio p)) 115) [1..<116])"
  shows "set_src n url p =
           Some (Pending \<lparr>originalVolume = 0, delta = 1, ticks = 115, tick = 1, cleared = False\<rparr>,
                 p\<lparr>audio := (audio p)\<lparr>volume := 0, src := url,
                       calls := calls (audio p) @ map VolumeWrite fade_out @ [SrcWrite url]
                                @ (if paused (audio p) then [] else [PlayCall])\<rparr>\<rparr>)
       \<and> last fade_out = 0
       \<and> (volume (audio p) \<noteq> 0 \<and> m < 115 \<longrightarrow> set_src m url p = None)"
proof (cases "volume (audio p) = 0")
  case True
  have sv: "setVolume 0 1500 default_intervalMs p = (Resolved, p\<lparr>audio := write_volume 0 (audio p)\<rparr>)"
    using True by (simp add: setVolume_def)
  have v: "volume (audio (p\<lparr>audio := write_volume 0 (audio p)\<rparr>)) = 0"
    by (simp add: write_volume_def)
  have main: "set_src n url p = Some (src_then url 1500 (p\<lparr>audio := write_volume 0 (audio p)\<rparr>))"
    by (simp add: set_src_def sv)
  show ?thesis
    unfolding main src_then_eq[OF v] using True by (simp add: fo write_volume_def)
next
  case False
  let ?v = "volume (audio p)"
  let ?f0 = "\<lparr>originalVolume = ?v, delta = 0 / 100 - ?v,
              ticks = \<lfloor>(1500::real) / 13\<rfloor>, tick = 1, cleared = False\<rparr>"
  let ?ws = "map (spec_swing ?v (0 / 100 - ?v) 115) [1..<Suc 115]"
  have h: "(0::real) \<le> 0" "(0::real) \<le> 100" "(0::real) / 100 \<noteq> ?v"
    "(0::real) < 1500" "(0::real) < 13" "(115::nat) = nat \<lfloor>(1500::real) / 13\<rfloor>" "(1::nat) \<le> 115"
    using False by simp_all
  have sv: "setVolume 0 1500 default_intervalMs p = (Pending ?f0, p)"
    using fade_run(1)[OF h order_refl refl refl] by (simp add: default_intervalMs_def)
  have run: "run_timer n ?f0 p = (?f0\<lparr>tick := int (Suc 115), cleared := True\<rparr>, apply_writes ?ws p)"
    by (rule fade_run(3)[OF h n refl refl])
  have fo': "fade_out = ?ws" using False fo by simp
  have lst: "last ?ws = 0"
    using last_fade_writes[of 115 "spec_swing ?v (0 / 100 - ?v) 115"]
    by (simp add: spec_swing_end)
  have ne: "?ws \<noteq> []" by simp
  have aw: "await n (Pending ?f0) p = Some (Inr (apply_writes ?ws p))"
    by (simp only: await.simps run) simp
  have main: "set_src n url p = Some (src_then url 1500 (apply_writes ?ws p))"
    unfolding set_src_def Let_def sv prod.case aw by simp
  have early: "set_src m url p = None" if "m < 115"
  proof -
    have "ticks ?f0 = int 115" "tick ?f0 = 1" "\<not> cleared ?f0" by simp_all
    from run_timer_early[OF this that, of p]
    have "\<not> cleared (fst (run_timer m ?f0 p))" by simp
    then have none: "await m (Pending ?f0) p = None"
      by (simp add: case_prod_beta)
    show ?thesis
      unfolding set_src_def Let_def sv prod.case none by simp
  qed
  have fin: "src_then url 1500 (apply_writes ?ws p) =
     (Pending \<lparr>originalVolume = 0, delta = 1, ticks = 115, tick = 1, cleared = False\<rparr>,
      p\<lparr>audio := (audio p)\<lparr>volume := 0, src := url,
            calls := calls (audio p) @ map VolumeWrite ?ws @ [SrcWrite url]
                     @ (if paused (audio p) then [] else [PlayCall])\<rparr>\<rparr>)"
    by (rule src_then_after_writes[OF ne lst])
  show ?thesis
    unfolding main fin fo' using lst early False by simp
qed


theorem set_src_sequence_witness:
  "set_src 115 ''b.mp3''
     \<lparr>audio = \<lparr>volume = 1, paused = False, src = ''a.mp3'', calls = ([] :: nat call list)\<rparr>,
      eventHandlers = Map.empty\<rparr> =
     Some (Pending \<lparr>originalVolume = 0, delta = 1, ticks = 115, tick = 1, cleared = False\<rparr>,
           \<lparr>audio = \<lparr>volume = 0, paused = False, src = ''b.mp3'',
                     calls = map VolumeWrite (map (spec_swing 1 (- 1) 115) [1..<116])
                             @ [SrcWrite ''b.mp3'', PlayCall]\<rparr>,
            eventHandlers = Map.empty\<rparr>)
   \<and> last (map (spec_swing 1 (- 1) 115) [1..<116]) = 0
   \<and> set_src 114 ''b.mp3''
     \<lparr>audio = \<lparr>volume = 1, paused = False, src = ''a.mp3'', calls = ([] :: nat call list)\<rparr>,
      eventHandlers = Map.empty\<rparr> = None"
proof -
  let ?p = "\<lparr>audio = \<lparr>volume = 1, paused = False, src = ''a.mp3'',
                       calls = ([] :: nat call list)\<rparr>,
             eventHandlers = Map.empty\<rparr>"
  have h1: "(115::nat) \<le> 115" by simp
  have h2: "map (spec_swing 1 (- 1) 115) [1..<116] =
      (if volume (audio ?p) = 0 then [0]
       else map (spec_swing (volume (audio ?p)) (- volume (audio ?p)) 115) [1..<116])"
    by simp
  show ?thesis
    using set_src_sequence[OF h1 h2, where url = "''b.mp3''" and m = 114] by simp
qed

section \<open>Properties of on and off\<close>

text \<open>
  C5 (as amended). For an event name that is not a property name of \<open>Object.prototype\<close>
  and whose array has fewer than \<open>2^32 - 1\<close> slots, \<open>on(event, handler)\<close> returns the
  length the array of \<open>event\<close> had before the call (0 when there was none), appends the
  handler to that array, hands the handler to \<open>addEventListener\<close>, and leaves every
  other array alone. So the first registration for such a name on a new player returns
  0, and the second returns 1 whatever calls of \<open>on\<close> and \<open>off\<close> for other event names
  come in between.
\<close>

theorem on_returns_previous_length:
  assumes "object_prototype event = None"
    and "length (sequence_of p event) < max_length"
    and "\<forall>x \<in> set ops. op_event x \<noteq> event"
  shows "on event handler p =
           (Inr (length (sequence_of p event)),
            p\<lparr>audio := addEventListener event (Some handler) (audio p),
              eventHandlers := (eventHandlers p)
                (event \<mapsto> (array_of p event)\<lparr>slots := sequence_of p event @ [Fn handler]\<rparr>)\<rparr>)
       \<and> fst (on event h1 (constructor url)) = Inr 0
       \<and> fst (on event h2 (run_ops ops (snd (on event h1 (constructor url))))) = Inr 1"
proof -
  have first: "fst (on event h1 (constructor url)) = Inr 0"
    using on_eq[of "constructor url" event h1] assms(1)
    by (simp add: sequence_of_constructor max_length_def)
  have s1: "sequence_of (snd (on event h1 (constructor url))) event = [Fn h1]"
    using on_handle(2)[OF first] by (simp add: sequence_of_constructor)
  have s2: "sequence_of (run_ops ops (snd (on event h1 (constructor url)))) event = [Fn h1]"
    using run_ops_other[OF assms(3)] s1 by simp
  have second: "fst (on event h2 (run_ops ops (snd (on event h1 (constructor url))))) = Inr 1"
    using on_eq[of "run_ops ops (snd (on event h1 (constructor url)))" event h2] assms(1) s2
    by (simp add: max_length_def)
  show ?thesis
    using on_eq[of p event handler] assms(1,2) first second by simp
qed

theorem on_returns_previous_length_witness:
  "on ''ended'' (7::nat) (constructor None) =
     (Inr 0, \<lparr>audio = \<lparr>volume = 1, paused = True, src = [],
                        calls = [AddEventListener ''ended'' (Some 7)]\<rparr>,
              eventHandlers = [''ended'' \<mapsto> \<lparr>slots = [Fn 7], extra = Map.empty\<rparr>]\<rparr>)
   \<and> fst (on ''ended'' (9::nat)
          (run_ops [On ''play'' 8, Off ''pause'' None, Off ''play'' (Some 0)]
             (snd (on ''ended'' 7 (constructor None))))) = Inr 1"
proof -
  have h1: "object_prototype ''ended'' = None"
    by (simp add: object_prototype_def)
  have s0: "sequence_of (constructor None :: nat NebulaAudio) ''ended'' = []"
    and a0: "array_of (constructor None :: nat NebulaAudio) ''ended'' = \<lparr>slots = [], extra = Map.empty\<rparr>"
    by (simp_all add: sequence_of_def array_of_def constructor_def)
  have h2: "length (sequence_of (constructor None :: nat NebulaAudio) ''ended'') < max_length"
    by (simp add: s0 max_length_def)
  have h3: "\<forall>x \<in> set [On ''play'' (8::nat), Off ''pause'' None, Off ''play'' (Some 0)].
             op_event x \<noteq> ''ended''"
    by simp
  note c = on_returns_previous_length[OF h1 h2 h3, where handler = "7::nat"
      and ?h1.0 = "7::nat" and url = None and ?h2.0 = "9::nat"]
  have a: "on ''ended'' (7::nat) (constructor None) =
     (Inr 0, \<lparr>audio = \<lparr>volume = 1, paused = True, src = [],
                        calls = [AddEventListener ''ended'' (Some 7)]\<rparr>,
              eventHandlers = [''ended'' \<mapsto> \<lparr>slots = [Fn 7], extra = Map.empty\<rparr>]\<rparr>)"
    using c[THEN conjunct1, unfolded s0 a0]
    by (simp add: constructor_def Audio_def addEventListener_def)
  show ?thesis
    using a c[THEN conjunct2, THEN conjunct2] by (rule conjI)
qed

text \<open>
  C5 as stated fails for an inherited name and at the maximal length. On a new player
  \<open>on('constructor', h)\<close> ends in a \<open>TypeError\<close>. And after \<open>on('ended', h)\<close> and
  \<open>off('ended', 4294967294)\<close> the array of \<open>ended\<close> has \<open>2^32 - 1\<close> slots, and the next
  \<open>on('ended', \<dots>)\<close> ends in a \<open>RangeError\<close>.
\<close>

theorem on_inherited_name_counterexample:
  "fst (on ''constructor'' (7::nat) (constructor None)) = Inl TypeError
   \<and> fst (on ''ended'' (8::nat)
          (snd (off ''ended'' (Some 4294967294)
             (snd (on ''ended'' (7::nat) (constructor None)))))) = Inl RangeError"
proof -
  let ?new = "constructor None :: nat NebulaAudio"
  have "eventHandlers ?new ''constructor'' = None"
    and "object_prototype ''constructor'' = Some (Some 1)"
    by (simp_all add: constructor_def object_prototype_def)
  then have a: "fst (on ''constructor'' (7::nat) ?new) = Inl TypeError"
    by (simp add: on_inherited)
  let ?a1 = "\<lparr>slots = [Fn (7::nat)], extra = Map.empty\<rparr>"
  let ?p1 = "snd (on ''ended'' (7::nat) ?new)"
  have e1: "eventHandlers ?p1 ''ended'' = Some ?a1"
    by (simp add: on_constructor object_prototype_def)
  have idx: "is_array_index 4294967294"
    by (simp add: is_array_index_def max_length_def)
  let ?a2 = "store_null ?a1 4294967294"
  let ?p2 = "snd (off ''ended'' (Some 4294967294) ?p1)"
  have ne: "slots ?a1 \<noteq> []" by simp
  have e2: "eventHandlers ?p2 ''ended'' = Some ?a2"
    using off_index_eq[OF e1 ne, of 4294967294] by simp
  have len: "max_length \<le> length (slots ?a2)"
    using idx by (simp add: store_null_def max_length_def)
  have b: "fst (on ''ended'' (8::nat) ?p2) = Inl RangeError"
    using on_full[OF e2 len] by simp
  show ?thesis using a b by (rule conjI)
qed




text \<open>
  C7. For an event name with a non-empty array, \<open>off(event)\<close> without an index does not
  throw and leaves an array of the same length in which no slot holds a handler: every
  slot that held a handler or \<open>null\<close> is \<open>null\<close>, at its old index (an array without
  holes becomes all \<open>null\<close>). The calls made on the element are one
  \<open>removeEventListener\<close> per slot that is not a hole, in array order, so the handlers
  unregistered are exactly the live handlers of the array, in array order.
\<close>

theorem off_all_tombstones:
  assumes "eventHandlers p event = Some a" "slots a \<noteq> []"
  shows "fst (off event None p) = None
       \<and> sequence_of (snd (off event None p)) event = map nulled (slots a)
       \<and> length (sequence_of (snd (off event None p)) event) = length (slots a)
       \<and> list_all tombstone (sequence_of (snd (off event None p)) event)
       \<and> (Empty \<notin> set (slots a) \<longrightarrow>
            sequence_of (snd (off event None p)) event = replicate (length (slots a)) Null)
       \<and> calls (audio (snd (off event None p))) =
           calls (audio p) @
           map (\<lambda>s. RemoveEventListener event (slot_handler s)) (filter present (slots a))
       \<and> unregistered event (calls (audio (snd (off event None p)))) =
           unregistered event (calls (audio p)) @ live_handlers (slots a)"
proof -
  have ok: "fst (off event None p) = None"
    using assms by (simp add: off_all_eq)
  have seq: "sequence_of (snd (off event None p)) event = map nulled (slots a)"
    using assms by (simp add: off_all_eq sequence_of_def array_of_def)
  have tomb: "list_all tombstone (map nulled (slots a))"
    by (simp add: list_all_iff tombstone_nulled)
  have full: "map nulled hs = replicate (length hs) Null" if "Empty \<notin> set hs"
    for hs :: "'a slot list"
    using that
  proof (induction hs)
    case Nil
    show ?case by simp
  next
    case (Cons s hs)
    then show ?case by (cases s) simp_all
  qed
  have cs: "calls (audio (snd (off event None p))) =
      calls (audio p) @
      map (\<lambda>s. RemoveEventListener event (slot_handler s)) (filter present (slots a))"
    using assms by (simp add: off_all_eq)
  show ?thesis
    using ok seq tomb full cs by (simp add: unregistered_append unregistered_forEach)
qed

theorem off_all_tombstones_witness:
  "fst (off ''ended'' None
      \<lparr>audio = Audio None,
       eventHandlers = [''ended'' \<mapsto> \<lparr>slots = [Fn (7::nat), Null, Fn 8], extra = Map.empty\<rparr>]\<rparr>)
     = None
   \<and> sequence_of (snd (off ''ended'' None
      \<lparr>audio = Audio None,
       eventHandlers = [''ended'' \<mapsto> \<lparr>slots = [Fn (7::nat), Null, Fn 8], extra = Map.empty\<rparr>]\<rparr>))
      ''ended''
     = [Null, Null, Null]
   \<and> calls (audio (snd (off ''ended'' None
      \<lparr>audio = Audio None,
       eventHandlers = [''ended'' \<mapsto> \<lparr>slots = [Fn (7::nat), Null, Fn 8], extra = Map.empty\<rparr>]\<rparr>)))
     = [RemoveEventListener ''ended'' (Some 7), RemoveEventListener ''ended'' None,
        RemoveEventListener ''ended'' (Some 8)]
   \<and> unregistered ''ended'' (calls (audio (snd (off ''ended'' None
      \<lparr>audio = Audio None,
       eventHandlers = [''ended'' \<mapsto> \<lparr>slots = [Fn (7::nat), Null, Fn 8], extra = Map.empty\<rparr>]\<rparr>))))
     = [7, 8]"
proof -
  let ?a = "\<lparr>slots = [Fn (7::nat), Null, Fn 8], extra = Map.empty\<rparr>"
  let ?p = "\<lparr>audio = Audio None, eventHandlers = [''ended'' \<mapsto> ?a]\<rparr>"
  have h1: "eventHandlers ?p ''ended'' = Some ?a" by simp
  have h2: "slots ?a \<noteq> []" by simp
  show ?thesis
    using off_all_tombstones[OF h1 h2] by (simp add: Audio_def)
qed

text \<open>
  C8. Over any sequence of calls of \<open>on\<close> and \<open>off\<close>, for every event name: the array of
  the name never gets shorter; a slot without a handler stays without one at the same
  index, and a \<open>null\<close> slot stays \<open>null\<close>; and when \<open>on\<close> has returned \<open>k\<close> for the name and
  \<open>off\<close> is called with the name and \<open>k\<close>, then after any further calls every index that
  \<open>on\<close> returns for the name is greater than \<open>k\<close>.
\<close>

theorem registry_invariant:
  "length (sequence_of p event) \<le> length (sequence_of (run_ops ops p) event)
   \<and> (i < length (sequence_of p event) \<and> tombstone (sequence_of p event ! i) \<longrightarrow>
        tombstone (sequence_of (run_ops ops p) event ! i))
   \<and> (i < length (sequence_of p event) \<and> sequence_of p event ! i = Null \<longrightarrow>
        sequence_of (run_ops ops p) event ! i = Null)
   \<and> (fst (on event h q) = Inr k
        \<and> fst (on event h' (run_ops ops' (snd (off event (Some (real k)) (snd (on event h q))))))
            = Inr k'
      \<longrightarrow> k < k')"
proof -
  have g: "grows (sequence_of p event) (sequence_of (run_ops ops p) event)"
    by (rule run_ops_grows)
  have reuse: "k < k'"
    if k: "fst (on event h q) = Inr k"
      and k': "fst (on event h' (run_ops ops' (snd (off event (Some (real k))
                  (snd (on event h q)))))) = Inr k'"
  proof -
    let ?q1 = "snd (on event h q)"
    let ?q2 = "snd (off event (Some (real k)) ?q1)"
    have l1: "length (sequence_of ?q1 event) = Suc k"
      using on_handle[OF k] by simp
    have "grows (sequence_of ?q1 event) (sequence_of ?q2 event)"
      by (rule off_grows)
    moreover have "grows (sequence_of ?q2 event) (sequence_of (run_ops ops' ?q2) event)"
      by (rule run_ops_grows)
    ultimately have "Suc k \<le> length (sequence_of (run_ops ops' ?q2) event)"
      using l1 by (simp add: grows_def)
    then show ?thesis using on_handle(1)[OF k'] by simp
  qed
  show ?thesis
    using g reuse by (auto simp: grows_def)
qed

theorem registry_invariant_witness:
  "length (sequence_of
      \<lparr>audio = Audio None,
       eventHandlers = [''ended'' \<mapsto> \<lparr>slots = [Null, Fn (7::nat)], extra = Map.empty\<rparr>]\<rparr> ''ended'')
     \<le> length (sequence_of (run_ops [On ''ended'' 8, Off ''ended'' (Some 4), Off ''ended'' None]
          \<lparr>audio = Audio None,
           eventHandlers = [''ended'' \<mapsto> \<lparr>slots = [Null, Fn (7::nat)], extra = Map.empty\<rparr>]\<rparr>)
          ''ended'')
   \<and> sequence_of (run_ops [On ''ended'' 8, Off ''ended'' (Some 4), Off ''ended'' None]
          \<lparr>audio = Audio None,
           eventHandlers = [''ended'' \<mapsto> \<lparr>slots = [Null, Fn (7::nat)], extra = Map.empty\<rparr>]\<rparr>)
        ''ended'' ! 0 = Null
   \<and> fst (on ''ended'' (7::nat) (constructor None)) = Inr 0
   \<and> fst (on ''ended'' (9::nat)
        (run_ops [Off ''ended'' None]
           (snd (off ''ended'' (Some (real 0)) (snd (on ''ended'' (7::nat) (constructor None)))))))
       = Inr 1
   \<and> (0::nat) < 1"
proof -
  let ?a = "\<lparr>slots = [Null, Fn (7::nat)], extra = Map.empty\<rparr>"
  let ?p = "\<lparr>audio = Audio None, eventHandlers = [''ended'' \<mapsto> ?a]\<rparr>"
  let ?new = "constructor None :: nat NebulaAudio"
  have s: "sequence_of ?p ''ended'' = [Null, Fn 7]"
    by (simp add: sequence_of_def array_of_def)
  have h1: "0 < length (sequence_of ?p ''ended'')" by (simp add: s)
  have n: "sequence_of ?p ''ended'' ! 0 = Null" by (simp add: s)
  have proto: "object_prototype ''ended'' = None"
    by (simp add: object_prototype_def)
  have s0: "sequence_of ?new ''ended'' = []"
    by (simp add: sequence_of_def array_of_def constructor_def)
  have k: "fst (on ''ended'' (7::nat) ?new) = Inr 0"
    using on_eq[of ?new "''ended''" 7] proto s0 by (simp add: max_length_def)
  let ?q1 = "snd (on ''ended'' (7::nat) ?new)"
  let ?q2 = "snd (off ''ended'' (Some (real 0)) ?q1)"
  let ?q3 = "run_ops [Off ''ended'' None] ?q2"
  have e1: "eventHandlers ?q1 ''ended'' = Some \<lparr>slots = [Fn 7], extra = Map.empty\<rparr>"
    by (simp add: on_constructor proto)
  have idx: "is_array_index (real 0)" by (simp add: is_array_index_def max_length_def)
  have st: "store_null \<lparr>slots = [Fn (7::nat)], extra = Map.empty\<rparr> (real 0)
      = \<lparr>slots = [Null], extra = Map.empty\<rparr>"
    using idx by (simp add: store_null_def)
  have e2: "eventHandlers ?q2 ''ended'' = Some \<lparr>slots = [Null], extra = Map.empty\<rparr>"
    using off_index_eq[OF e1, of "real 0"] st by simp
  have e3: "eventHandlers (snd (off ''ended'' None ?q2)) ''ended''
      = Some \<lparr>slots = [Null], extra = Map.empty\<rparr>"
    using off_all_eq[OF e2] by simp
  have s3: "sequence_of ?q3 ''ended'' = [Null]"
    using e3 by (simp add: sequence_of_own)
  have k': "fst (on ''ended'' (9::nat) ?q3) = Inr 1"
    using on_eq[of ?q3 "''ended''" 9] proto s3 by (simp add: max_length_def)
  note c = registry_invariant[where p = ?p and event = "''ended''" and i = 0
      and ops = "[On ''ended'' 8, Off ''ended'' (Some 4), Off ''ended'' None]"
      and h = "7::nat" and q = ?new and h' = "9::nat" and ops' = "[Off ''ended'' None]"
      and k = 0 and k' = 1]
  show ?thesis
    using c h1 n k k' by blast
qed

end
